theory Spec2Isabelle
  imports Complex_Main "HOL-Library.Word" "HOL-Library.Sublist"
begin

unbundle bit_operations_syntax

section \<open>Embedding of \<^verbatim>\<open>stim/stabilizers/conversions.h\<close>\<close>

subsection \<open>Integer helpers\<close>

text \<open>
  \<^verbatim>\<open>size_t\<close> is taken as a 64-bit unsigned word and \<^verbatim>\<open>uint8_t\<close> as an 8-bit one;
  \<open>+\<close> and \<open>-\<close> wrap around and \<open>drop_bit 1\<close> is the logical shift \<^verbatim>\<open>>>= 1\<close>.
\<close>

type_synonym size_t = "64 word"
type_synonym uint8_t = "8 word"

text \<open>
  The loop of \<^verbatim>\<open>floor_lg2\<close>:
  \<^verbatim>\<open>while (value > 1) { result += 1; value >>= 1; }\<close>
  with the two mutable locals passed as arguments.
\<close>

function floor_lg2_loop :: "uint8_t \<Rightarrow> size_t \<Rightarrow> uint8_t" where
  "floor_lg2_loop result v =
     (if v > 1 then floor_lg2_loop (result + 1) (drop_bit 1 v) else result)"
  by pat_completeness auto
termination
proof (relation "measure (\<lambda>(result, v). unat v)")
  show "wf (measure (\<lambda>(result, v). unat v))" by simp
next
  fix result :: uint8_t and v :: size_t
  assume "1 < v"
  then have "0 < unat v" by (simp add: word_less_nat_alt)
  then have "unat v div 2 < unat v" by simp
  then show "((result + 1, drop_bit 1 v), (result, v)) \<in> measure (\<lambda>(result, v). unat v)"
    by (simp add: drop_bit_eq_div unat_div)
qed

declare floor_lg2_loop.simps [simp del]

definition floor_lg2 :: "size_t \<Rightarrow> uint8_t" where
  "floor_lg2 v = floor_lg2_loop 0 v"

text \<open>
  \<^verbatim>\<open>return value != 0 && (value & (value - 1)) == 0;\<close> The C++ \<^verbatim>\<open>bool\<close> is
  converted to the \<^verbatim>\<open>uint8_t\<close> return type: 1 for true, 0 for false.
\<close>

definition is_power_of_2 :: "size_t \<Rightarrow> uint8_t" where
  "is_power_of_2 v = (if v \<noteq> 0 \<and> (v AND (v - 1)) = 0 then 1 else 0)"

subsection \<open>Gate table and circuits\<close>

text \<open>
  The header uses the gate table \<^verbatim>\<open>GATE_DATA\<close>, the flag masks \<^verbatim>\<open>GATE_IS_UNITARY\<close> and
  \<^verbatim>\<open>GATE_TARGETS_PAIRS\<close> and the method \<^verbatim>\<open>Gate::inverse()\<close>, all declared in files
  outside this header. They are taken as a parameter: a record holding the table, the
  two masks and the inverse lookup. Flag sets are natural numbers read bitwise, so no
  width is assumed for the flag type. Gate types \<open>'g\<close>, gate targets \<open>'t\<close> and numeric
  arguments \<open>'a\<close> are left as type parameters.
\<close>

record 'g Gate =
  gate_id :: 'g
  flags :: nat

record 'g GateTable =
  GATE_DATA :: "'g \<Rightarrow> 'g Gate"
  GATE_IS_UNITARY :: nat
  GATE_TARGETS_PAIRS :: nat
  inverse_gate :: "'g Gate \<Rightarrow> 'g Gate"

record ('g, 't, 'a) CircuitInstruction =
  gate_type :: 'g
  args :: "'a list"
  targets :: "'t list"

text \<open>
  Modelled from the spec: the class \<^verbatim>\<open>Circuit\<close>, which the header takes from
  \<^verbatim>\<open>stim/circuit/circuit.h\<close>, is "an ordered sequence of instructions, each an opcode
  (gate type) plus target qubit/pair list plus optional numeric arguments".
\<close>

type_synonym ('g, 't, 'a) Circuit = "('g, 't, 'a) CircuitInstruction list"

text \<open>
  The failures of the inverter. \<open>NotUnitary op\<close> is the
  \<^verbatim>\<open>std::invalid_argument("Not unitary: " + op.str())\<close> of the source. \<open>TargetsOutOfRange\<close>
  stands for the read before the start of the target buffer that the target loop performs
  when a pair gate carries an odd number of targets (\<^verbatim>\<open>s + k - step\<close> with \<^verbatim>\<open>k < step\<close>).
\<close>

datatype ('g, 't, 'a) inverse_error =
  NotUnitary "('g, 't, 'a) CircuitInstruction"
| TargetsOutOfRange

text \<open>
  Modelled from the spec: \<^verbatim>\<open>Circuit::safe_append\<close> is defined outside the header; by
  the spec "instructions are appended, never mutated in place", so the call adds one
  instruction with the given gate, targets and arguments at the end of the circuit.
\<close>

definition safe_append ::
  "('g, 't, 'a) Circuit \<Rightarrow> 'g \<Rightarrow> 't list \<Rightarrow> 'a list \<Rightarrow> ('g, 't, 'a) Circuit" where
  "safe_append circuit g ts as =
     circuit @ [\<lparr>gate_type = g, args = as, targets = ts\<rparr>]"

text \<open>
  Modelled from the spec: the traversal of a circuit, defined outside the header. The
  callback is run on each instruction in order with the state built so far; when it
  throws, the traversal ends with that error and the state is lost.
\<close>

fun for_each_operation ::
  "'i list \<Rightarrow> ('i \<Rightarrow> 's \<Rightarrow> 'e + 's) \<Rightarrow> 's \<Rightarrow> 'e + 's" where
  "for_each_operation [] callback s = Inr s"
| "for_each_operation (op # ops) callback s =
     (case callback op s of
        Inl e \<Rightarrow> Inl e
      | Inr s' \<Rightarrow> for_each_operation ops callback s')"

text \<open>
  Modelled from the spec: \<^verbatim>\<open>Circuit::for_each_operation_reverse\<close> is defined outside the
  header; by the spec the inverter "traverse[s] instructions in reverse order".
\<close>

definition for_each_operation_reverse ::
  "'i list \<Rightarrow> ('i \<Rightarrow> 's \<Rightarrow> 'e + 's) \<Rightarrow> 's \<Rightarrow> 'e + 's" where
  "for_each_operation_reverse circuit callback s =
     for_each_operation (rev circuit) callback s"

subsection \<open>The circuit inverter\<close>

text \<open>
  \<^verbatim>\<open>size_t step = (gate_data.flags & GATE_TARGETS_PAIRS) ? 2 : 1;\<close>
\<close>

definition target_step :: "'g GateTable \<Rightarrow> 'g Gate \<Rightarrow> nat" where
  "target_step tbl gate_data =
     (if flags gate_data AND GATE_TARGETS_PAIRS tbl \<noteq> 0 then 2 else 1)"

text \<open>
  The target loop
  \<^verbatim>\<open>for (size_t k = op.targets.size(); k > 0; k -= step)
      inverted.safe_append(inv_gate.id, {s + k - step, s + k}, op.args);\<close>
  The span \<^verbatim>\<open>{s + k - step, s + k}\<close> is the slice of the targets from index \<open>k - step\<close>
  up to \<open>k\<close>. When \<open>k < step\<close> the span starts before the buffer, which the model reports
  as \<open>TargetsOutOfRange\<close> instead of reading. The loop-invariant \<open>step\<close> is read from the
  gate in each round, which makes the decrease of \<open>k\<close> visible to the termination proof.
\<close>

function append_inverted_targets ::
  "'g GateTable \<Rightarrow> 'g Gate \<Rightarrow> ('g, 't, 'a) CircuitInstruction \<Rightarrow> nat \<Rightarrow>
   ('g, 't, 'a) Circuit \<Rightarrow> ('g, 't, 'a) inverse_error + ('g, 't, 'a) Circuit" where
  "append_inverted_targets tbl gate_data op k inverted =
     (if k > 0 then
        (let step = target_step tbl gate_data in
         if k < step then Inl TargetsOutOfRange
         else append_inverted_targets tbl gate_data op (k - step)
                (safe_append inverted (gate_id (inverse_gate tbl gate_data))
                   (take step (drop (k - step) (targets op))) (args op)))
      else Inr inverted)"
  by pat_completeness auto
termination
  by (relation "measure (\<lambda>(tbl, gate_data, op, k, inverted). k)")
     (auto simp: target_step_def)

declare append_inverted_targets.simps [simp del]

text \<open>The body of the lambda given to \<^verbatim>\<open>for_each_operation_reverse\<close>.\<close>

definition invert_operation ::
  "'g GateTable \<Rightarrow> ('g, 't, 'a) CircuitInstruction \<Rightarrow> ('g, 't, 'a) Circuit \<Rightarrow>
   ('g, 't, 'a) inverse_error + ('g, 't, 'a) Circuit" where
  "invert_operation tbl op inverted =
     (let gate_data = GATE_DATA tbl (gate_type op) in
      if \<not> (flags gate_data AND GATE_IS_UNITARY tbl \<noteq> 0) then Inl (NotUnitary op)
      else append_inverted_targets tbl gate_data op (length (targets op)) inverted)"

definition unitary_circuit_inverse ::
  "'g GateTable \<Rightarrow> ('g, 't, 'a) Circuit \<Rightarrow>
   ('g, 't, 'a) inverse_error + ('g, 't, 'a) Circuit" where
  "unitary_circuit_inverse tbl unitary_circuit =
     for_each_operation_reverse unitary_circuit (invert_operation tbl) []"

subsection \<open>The inverter as the specification words it\<close>

text \<open>
  The target list cut into consecutive blocks of \<open>n\<close> targets, in order: the qubit pairs
  of a pair gate for \<open>n = 2\<close>, the single targets for \<open>n = 1\<close>.
\<close>

function blocks :: "nat \<Rightarrow> 'x list \<Rightarrow> 'x list list" where
  "blocks n xs = (if n = 0 \<or> xs = [] then [] else take n xs # blocks n (drop n xs))"
  by pat_completeness auto
termination
  by (relation "measure (\<lambda>(n, xs). length xs)") auto

declare blocks.simps [simp del]

definition is_unitary :: "'g GateTable \<Rightarrow> ('g, 't, 'a) CircuitInstruction \<Rightarrow> bool" where
  "is_unitary tbl op = (flags (GATE_DATA tbl (gate_type op)) AND GATE_IS_UNITARY tbl \<noteq> 0)"

text \<open>
  A pair gate carries an even number of targets; for the other gates the condition is
  empty. Circuits are validated for this when they are built.
\<close>

definition targets_well_formed ::
  "'g GateTable \<Rightarrow> ('g, 't, 'a) CircuitInstruction \<Rightarrow> bool" where
  "targets_well_formed tbl op =
     (target_step tbl (GATE_DATA tbl (gate_type op)) dvd length (targets op))"

text \<open>
  The specification's algorithm for one instruction: the inverse gate from the table,
  and the blocks of the target list in reverse order, each block kept as it is.
\<close>

definition spec_inverse_operation ::
  "'g GateTable \<Rightarrow> ('g, 't, 'a) CircuitInstruction \<Rightarrow> ('g, 't, 'a) Circuit" where
  "spec_inverse_operation tbl op =
     (let gate_data = GATE_DATA tbl (gate_type op) in
      map (\<lambda>block. \<lparr>gate_type = gate_id (inverse_gate tbl gate_data),
                      args = args op, targets = block\<rparr>)
        (rev (blocks (target_step tbl gate_data) (targets op))))"

text \<open>The instructions are visited in reverse order.\<close>

definition spec_unitary_circuit_inverse ::
  "'g GateTable \<Rightarrow> ('g, 't, 'a) Circuit \<Rightarrow> ('g, 't, 'a) Circuit" where
  "spec_unitary_circuit_inverse tbl circuit =
     concat (map (spec_inverse_operation tbl) (rev circuit))"

subsection \<open>What a circuit does\<close>

text \<open>
  The action of a gate on one block of targets (one qubit, or one pair for a pair gate)
  belongs to the gate table and the tableau algebra, outside this header; it is the
  parameter \<open>act\<close>, over any state type \<open>'q\<close>. An instruction applies its gate to the
  blocks of its target list one after the other, and a circuit applies its instructions
  in order. The inverter relies on the same reading when it emits one instruction for
  each block.
\<close>

definition apply_operation ::
  "'g GateTable \<Rightarrow> ('g \<Rightarrow> 't list \<Rightarrow> 'a list \<Rightarrow> 'q \<Rightarrow> 'q) \<Rightarrow>
   ('g, 't, 'a) CircuitInstruction \<Rightarrow> 'q \<Rightarrow> 'q" where
  "apply_operation tbl act op q =
     fold (\<lambda>block. act (gate_type op) block (args op))
       (blocks (target_step tbl (GATE_DATA tbl (gate_type op))) (targets op)) q"

definition apply_circuit ::
  "'g GateTable \<Rightarrow> ('g \<Rightarrow> 't list \<Rightarrow> 'a list \<Rightarrow> 'q \<Rightarrow> 'q) \<Rightarrow>
   ('g, 't, 'a) Circuit \<Rightarrow> 'q \<Rightarrow> 'q" where
  "apply_circuit tbl act circuit q = fold (apply_operation tbl act) circuit q"

text \<open>The gate type that the inverter emits for gate type \<open>g\<close>.\<close>

definition inverse_id :: "'g GateTable \<Rightarrow> 'g \<Rightarrow> 'g" where
  "inverse_id tbl g = gate_id (inverse_gate tbl (GATE_DATA tbl g))"

text \<open>
  What the second inversion needs of the table at gate type \<open>g\<close>: the inverse gate is
  unitary, it targets pairs exactly when \<open>g\<close> does, and so does the inverse of the
  inverse, which acts as \<open>g\<close> itself.
\<close>

definition inverse_table_coherent ::
  "'g GateTable \<Rightarrow> ('g \<Rightarrow> 't list \<Rightarrow> 'a list \<Rightarrow> 'q \<Rightarrow> 'q) \<Rightarrow> 'g \<Rightarrow> bool" where
  "inverse_table_coherent tbl act g =
     (flags (GATE_DATA tbl (inverse_id tbl g)) AND GATE_IS_UNITARY tbl \<noteq> 0 \<and>
      target_step tbl (GATE_DATA tbl (inverse_id tbl g)) = target_step tbl (GATE_DATA tbl g) \<and>
      target_step tbl (GATE_DATA tbl (inverse_id tbl (inverse_id tbl g))) =
        target_step tbl (GATE_DATA tbl g) \<and>
      act (inverse_id tbl (inverse_id tbl g)) = act g)"

text \<open>
  One instruction cut into one instruction for each block of targets, in the original
  order, with the inverse of the inverse gate.
\<close>

definition split_operation ::
  "'g GateTable \<Rightarrow> ('g, 't, 'a) CircuitInstruction \<Rightarrow> ('g, 't, 'a) Circuit" where
  "split_operation tbl op =
     map (\<lambda>block. \<lparr>gate_type = inverse_id tbl (inverse_id tbl (gate_type op)),
                     args = args op, targets = block\<rparr>)
       (blocks (target_step tbl (GATE_DATA tbl (gate_type op))) (targets op))"

subsection \<open>The circuit-to-tableau compiler\<close>

text \<open>
  The header only declares \<^verbatim>\<open>circuit_to_tableau\<close>; its body is in \<^verbatim>\<open>conversions.inl\<close>.
  The tableau type \<open>'T\<close>, the identity tableau, the composition of one gate into a
  tableau and the kind that the gate table gives a gate type are parameters.
\<close>

datatype instruction_kind = UnitaryGate | NoiseChannel | Measurement | Reset

datatype tableau_error = UnsupportedInstruction

text \<open>
  Modelled from the spec: one step of \<^verbatim>\<open>circuit_to_tableau\<close>, whose body is missing.
  "Encountering a noise/measurement/reset instruction fails with an unsupported
  instruction error unless the corresponding ignore-flag is set, in which case that
  instruction is skipped with no tableau mutation"; a gate is composed into the tableau.
\<close>

definition circuit_to_tableau_step ::
  "('g \<Rightarrow> instruction_kind) \<Rightarrow> (('g, 't, 'a) CircuitInstruction \<Rightarrow> 'T \<Rightarrow> 'T) \<Rightarrow>
   bool \<Rightarrow> bool \<Rightarrow> bool \<Rightarrow> ('g, 't, 'a) CircuitInstruction \<Rightarrow> 'T \<Rightarrow>
   tableau_error + 'T" where
  "circuit_to_tableau_step kind compose ignore_noise ignore_measurement ignore_reset op tableau =
     (case kind (gate_type op) of
        UnitaryGate \<Rightarrow> Inr (compose op tableau)
      | NoiseChannel \<Rightarrow> if ignore_noise then Inr tableau else Inl UnsupportedInstruction
      | Measurement \<Rightarrow> if ignore_measurement then Inr tableau else Inl UnsupportedInstruction
      | Reset \<Rightarrow> if ignore_reset then Inr tableau else Inl UnsupportedInstruction)"

text \<open>
  Modelled from the spec: \<^verbatim>\<open>circuit_to_tableau\<close>, whose body is missing, "folds
  instructions left-to-right into an initially-identity tableau by composing each gate's
  action".
\<close>

definition circuit_to_tableau ::
  "('g \<Rightarrow> instruction_kind) \<Rightarrow> (('g, 't, 'a) CircuitInstruction \<Rightarrow> 'T \<Rightarrow> 'T) \<Rightarrow> 'T \<Rightarrow>
   ('g, 't, 'a) Circuit \<Rightarrow> bool \<Rightarrow> bool \<Rightarrow> bool \<Rightarrow> tableau_error + 'T" where
  "circuit_to_tableau kind compose identity_tableau circuit
       ignore_noise ignore_measurement ignore_reset =
     for_each_operation circuit
       (circuit_to_tableau_step kind compose ignore_noise ignore_measurement ignore_reset)
       identity_tableau"

text \<open>A noise, measurement or reset instruction whose ignore-flag is false.\<close>

definition unsupported ::
  "('g \<Rightarrow> instruction_kind) \<Rightarrow> bool \<Rightarrow> bool \<Rightarrow> bool \<Rightarrow>
   ('g, 't, 'a) CircuitInstruction \<Rightarrow> bool" where
  "unsupported kind ignore_noise ignore_measurement ignore_reset op =
     (kind (gate_type op) = NoiseChannel \<and> \<not> ignore_noise \<or>
      kind (gate_type op) = Measurement \<and> \<not> ignore_measurement \<or>
      kind (gate_type op) = Reset \<and> \<not> ignore_reset)"

text \<open>A noise, measurement or reset instruction whose ignore-flag is true.\<close>

definition ignored ::
  "('g \<Rightarrow> instruction_kind) \<Rightarrow> bool \<Rightarrow> bool \<Rightarrow> bool \<Rightarrow>
   ('g, 't, 'a) CircuitInstruction \<Rightarrow> bool" where
  "ignored kind ignore_noise ignore_measurement ignore_reset op =
     (kind (gate_type op) = NoiseChannel \<and> ignore_noise \<or>
      kind (gate_type op) = Measurement \<and> ignore_measurement \<or>
      kind (gate_type op) = Reset \<and> ignore_reset)"

subsection \<open>The stabilizer completion solver\<close>

text \<open>
  The header only declares \<^verbatim>\<open>stabilizers_to_tableau\<close>; its body is in
  \<^verbatim>\<open>conversions.inl\<close>, and the classes \<^verbatim>\<open>PauliString\<close> and \<^verbatim>\<open>Tableau\<close> come from other
  headers.
\<close>

text \<open>
  Modelled from the spec: the class \<^verbatim>\<open>PauliString\<close> is "a sign times a tensor product of
  single-qubit Pauli operators over n qubits, bit-packed as two parallel bit-vectors
  (X-part, Z-part)"; \<open>sign\<close> is true for a negative string. On one qubit, X has the bits
  (1, 0), Z has (0, 1), Y has (1, 1) and the identity has (0, 0).
\<close>

record PauliString =
  sign :: bool
  x_part :: "bool list"
  z_part :: "bool list"

text \<open>
  Modelled from the spec: the class \<^verbatim>\<open>Tableau\<close> is "a 2n x 2n symplectic matrix over
  GF(2) plus a sign vector". Its rows are kept as signed Pauli strings: the destabilizer
  rows (the X outputs) and the stabilizer rows (the Z outputs).
\<close>

record Tableau =
  xs_output :: "PauliString list"
  zs_output :: "PauliString list"

text \<open>
  The failures of the solver. The first three are the spec's kinds. The spec names no
  kind for stabilizers that anticommute or contradict each other, from which no tableau
  with commuting stabilizer rows can be built; the model fails with \<open>InvalidStabilizers\<close>
  there.
\<close>

datatype stabilizer_error =
  StructuralPrecondition | RedundantInput | Underconstrained | InvalidStabilizers

text \<open>
  Modelled from the spec: the Pauli-string algebra, which the spec takes as given. A
  product of Pauli strings is a Pauli string up to a power of the imaginary unit; a
  phased string is that power (modulo 4) with the X-part and the Z-part. On one qubit
  \<open>XY = iZ\<close>, \<open>YZ = iX\<close>, \<open>ZX = iY\<close>, the reversed products carry \<open>-i\<close>, and a product
  with the identity or of an operator with itself carries no phase.
\<close>

type_synonym phased_pauli = "nat \<times> bool list \<times> bool list"

definition qubit_phase :: "bool \<times> bool \<Rightarrow> bool \<times> bool \<Rightarrow> nat" where
  "qubit_phase p q =
     (if p = (False, False) \<or> q = (False, False) \<or> p = q then 0
      else if (p, q) = ((True, False), (True, True)) \<or>
              (p, q) = ((True, True), (False, True)) \<or>
              (p, q) = ((False, True), (True, False)) then 1
      else 3)"

definition phased_mul :: "phased_pauli \<Rightarrow> phased_pauli \<Rightarrow> phased_pauli" where
  "phased_mul a b =
     (case a of (pa, xa, za) \<Rightarrow> case b of (pb, xb, zb) \<Rightarrow>
        ((pa + pb + sum_list (map2 qubit_phase (zip xa za) (zip xb zb))) mod 4,
         map2 (\<noteq>) xa xb, map2 (\<noteq>) za zb))"

definition sign_phase :: "PauliString \<Rightarrow> nat" where
  "sign_phase p = (if sign p then 2 else 0)"

definition phased :: "PauliString \<Rightarrow> phased_pauli" where
  "phased p = (sign_phase p, x_part p, z_part p)"

definition identity_pauli :: "nat \<Rightarrow> phased_pauli" where
  "identity_pauli n = (0, replicate n False, replicate n False)"

text \<open>
  Modelled from the spec: two Pauli strings commute when they anticommute on an even
  number of qubits; on one qubit two operators anticommute when both differ from the
  identity and from each other.
\<close>

definition commutes :: "PauliString \<Rightarrow> PauliString \<Rightarrow> bool" where
  "commutes p q =
     even (length (filter (\<lambda>((x1, z1), (x2, z2)). (x1 \<and> z2) \<noteq> (z1 \<and> x2))
                     (zip (zip (x_part p) (z_part p)) (zip (x_part q) (z_part q)))))"

text \<open>
  Modelled from the spec: "a row linearly dependent (over the symplectic form) on
  already-accepted rows". The products of all sub-lists of the accepted rows are listed;
  a row depends on the accepted rows when its X-part and Z-part are those of one of the
  products, and \<open>dependence\<close> returns that product with its phase. The row is the product
  itself when the phase agrees with its sign too.
\<close>

definition subset_products :: "nat \<Rightarrow> PauliString list \<Rightarrow> phased_pauli list" where
  "subset_products n rows =
     map (\<lambda>chosen. foldr (\<lambda>p acc. phased_mul (phased p) acc) chosen (identity_pauli n))
       (subseqs rows)"

definition dependence ::
  "nat \<Rightarrow> PauliString list \<Rightarrow> PauliString \<Rightarrow> phased_pauli option" where
  "dependence n accepted row =
     find (\<lambda>(ph, x, z). x = x_part row \<and> z = z_part row) (subset_products n accepted)"

definition linearly_dependent :: "nat \<Rightarrow> PauliString list \<Rightarrow> PauliString \<Rightarrow> bool" where
  "linearly_dependent n accepted row = (dependence n accepted row \<noteq> None)"


text \<open>
  Modelled from the spec: the row loop of \<^verbatim>\<open>stabilizers_to_tableau\<close>, whose body is
  missing. "Rows are processed in input order; a row linearly dependent on
  already-accepted rows is redundant: dropped silently if allow\_redundant, else fails
  with redundant stabilizer." The conversions "must never produce a tableau violating"
  the commutation relations of its rows, so a row that anticommutes with an accepted row
  is refused, and a dependent row that is the negative of the product of the accepted
  rows (a contradiction between the stabilizers) is refused instead of dropped.
\<close>

fun accept_rows ::
  "nat \<Rightarrow> bool \<Rightarrow> PauliString list \<Rightarrow> PauliString list \<Rightarrow>
   stabilizer_error + PauliString list" where
  "accept_rows n allow_redundant accepted [] = Inr accepted"
| "accept_rows n allow_redundant accepted (row # rows) =
     (case dependence n accepted row of
        Some product \<Rightarrow>
          if \<not> allow_redundant then Inl RedundantInput
          else if product \<noteq> phased row then Inl InvalidStabilizers
          else accept_rows n allow_redundant accepted rows
      | None \<Rightarrow>
          if \<exists>a \<in> set accepted. \<not> commutes a row then Inl InvalidStabilizers
          else accept_rows n allow_redundant (accepted @ [row]) rows)"

text \<open>
  The qubit count \<open>n\<close> of a list of stabilizers, "all over the same qubit count n", is
  read from the first one; the list is well sized when both parts of every row have
  \<open>n\<close> bits.
\<close>

definition qubit_count :: "PauliString list \<Rightarrow> nat" where
  "qubit_count stabilizers = (case stabilizers of [] \<Rightarrow> 0 | p # _ \<Rightarrow> length (x_part p))"

definition well_sized :: "nat \<Rightarrow> PauliString list \<Rightarrow> bool" where
  "well_sized n stabilizers =
     list_all (\<lambda>p. length (x_part p) = n \<and> length (z_part p) = n) stabilizers"

text \<open>
  Modelled from the spec: \<^verbatim>\<open>stabilizers_to_tableau\<close>, whose body is missing. Mismatched
  qubit counts are a structural precondition failure; "if the accepted independent row
  count is less than n after processing all input: fails with underconstrained unless
  allow\_underconstrained, in which case missing rows are filled arbitrarily"; the result
  is packaged "with matching destabilizers", and "invert selects whether the returned
  tableau is the one with the given stabilizers as its Z-outputs, or its inverse". The
  arbitrary completion \<open>fill\<close>, the choice of destabilizers and the tableau inverse are
  parameters.
\<close>

definition stabilizers_to_tableau ::
  "(nat \<Rightarrow> PauliString list \<Rightarrow> PauliString list) \<Rightarrow>
   (PauliString list \<Rightarrow> PauliString list) \<Rightarrow> (Tableau \<Rightarrow> Tableau) \<Rightarrow>
   PauliString list \<Rightarrow> bool \<Rightarrow> bool \<Rightarrow> bool \<Rightarrow> stabilizer_error + Tableau" where
  "stabilizers_to_tableau fill destabilizers inverse_tableau
       stabilizers allow_redundant allow_underconstrained invert =
     (let n = qubit_count stabilizers in
      if \<not> well_sized n stabilizers then Inl StructuralPrecondition
      else
        (case accept_rows n allow_redundant [] stabilizers of
           Inl e \<Rightarrow> Inl e
         | Inr accepted \<Rightarrow>
             if length accepted < n \<and> \<not> allow_underconstrained then Inl Underconstrained
             else
               (let rows = (if length accepted < n then fill n accepted else accepted);
                    tableau = \<lparr>xs_output = destabilizers rows, zs_output = rows\<rparr>
                in Inr (if invert then inverse_tableau tableau else tableau))))"

text \<open>The rows of a list commute pairwise.\<close>

fun commuting_rows :: "PauliString list \<Rightarrow> bool" where
  "commuting_rows [] = True"
| "commuting_rows (row # rows) = ((\<forall>b \<in> set rows. commutes row b) \<and> commuting_rows rows)"




text \<open>
  Pauli strings written with their letters: \<open>X\<close>, \<open>Y\<close>, \<open>Z\<close>, and any other character for
  the identity.
\<close>

definition pauli :: "bool \<Rightarrow> string \<Rightarrow> PauliString" where
  "pauli negative letters =
     \<lparr>sign = negative,
      x_part = map (\<lambda>c. c = CHR ''X'' \<or> c = CHR ''Y'') letters,
      z_part = map (\<lambda>c. c = CHR ''Z'' \<or> c = CHR ''Y'') letters\<rparr>"

definition pauli_XX :: PauliString where
  "pauli_XX = pauli False ''XX''"








subsection \<open>A small gate table for concrete runs\<close>

text \<open>
  Five gates numbered 0 to 4: H, S, S\_DAG and CX are unitary, CX targets pairs, and gate
  4 is a measurement. The unitary mask is bit 0 and the pair mask is bit 6. H and CX are
  their own inverses, S and S\_DAG are inverse to each other.
\<close>

definition sample_gate :: "nat \<Rightarrow> nat Gate" where
  "sample_gate g =
     \<lparr>gate_id = g,
      flags = (if g = 0 \<or> g = 1 \<or> g = 2 then 1 else if g = 3 then 65 else 0)\<rparr>"

definition sample_table :: "nat GateTable" where
  "sample_table =
     \<lparr>GATE_DATA = sample_gate, GATE_IS_UNITARY = 1, GATE_TARGETS_PAIRS = 64,
      inverse_gate = (\<lambda>gate_data. sample_gate
         (if gate_id gate_data = 1 then 2
          else if gate_id gate_data = 2 then 1 else gate_id gate_data))\<rparr>"

definition instruction ::
  "nat \<Rightarrow> nat list \<Rightarrow> (nat, nat, real) CircuitInstruction" where
  "instruction g ts = \<lparr>gate_type = g, args = [], targets = ts\<rparr>"

text \<open>A gate action for concrete runs: the trace of the gates applied, with their targets.\<close>

definition sample_act ::
  "nat \<Rightarrow> nat list \<Rightarrow> real list \<Rightarrow> (nat \<times> nat list) list \<Rightarrow> (nat \<times> nat list) list" where
  "sample_act g block as trace = trace @ [(g, block)]"

text \<open>
  For the compiler: the kinds of the gates of the small table, with two more gate types,
  5 for a noise channel and 6 for a reset, and a tableau stand-in that records the gate
  types composed into it.
\<close>

definition sample_kind :: "nat \<Rightarrow> instruction_kind" where
  "sample_kind g =
     (if g = 4 then Measurement else if g = 5 then NoiseChannel
      else if g = 6 then Reset else UnitaryGate)"

definition sample_compose ::
  "(nat, nat, real) CircuitInstruction \<Rightarrow> nat list \<Rightarrow> nat list" where
  "sample_compose op tableau = tableau @ [gate_type op]"

section \<open>Verification\<close>

subsection \<open>Integer helpers\<close>

lemma and_pred_nat: "0 < n \<Longrightarrow> (n AND (n - 1) = 0) = (\<exists>k. n = 2 ^ k)" for n :: nat
proof (induction n rule: less_induct)
  case (less n)
  show ?case
  proof (cases "even n")
    case True
    then obtain m where m: "n = 2 * m" by (elim evenE)
    with less.prems have mpos: "0 < m" by simp
    have pred: "n - 1 = 2 * (m - 1) + 1" using m mpos by simp
    have "n AND (n - 1) = 2 * (m AND (m - 1))"
      unfolding pred unfolding m
      by (simp add: and_rec [of "2 * m"] )
    moreover have "(m AND (m - 1) = 0) = (\<exists>k. m = 2 ^ k)"
      using less.IH [of m] m mpos by simp
    moreover have "(\<exists>k. m = 2 ^ k) = (\<exists>k. n = 2 ^ k)"
    proof
      assume "\<exists>k. m = 2 ^ k"
      then obtain k where "m = 2 ^ k" ..
      then have "n = 2 ^ Suc k" using m by simp
      then show "\<exists>k. n = 2 ^ k" ..
    next
      assume "\<exists>k. n = 2 ^ k"
      then obtain k where k: "n = 2 ^ k" ..
      with True less.prems have "k \<noteq> 0" by (cases k) auto
      then obtain j where "k = Suc j" by (cases k) auto
      with k m have "m = 2 ^ j" by simp
      then show "\<exists>k. m = 2 ^ k" ..
    qed
    ultimately show ?thesis by simp
  next
    case False
    then obtain m where m: "n = 2 * m + 1" by (elim oddE)
    have "n AND (n - 1) = 2 * m"
      unfolding m by (simp add: and_rec [of "Suc (2 * m)"])
    moreover have "(m = 0) = (\<exists>k. n = 2 ^ k)"
    proof
      assume "m = 0"
      then have "n = 2 ^ 0" using m by simp
      then show "\<exists>k. n = 2 ^ k" ..
    next
      assume "\<exists>k. n = 2 ^ k"
      then obtain k where k: "n = 2 ^ k" ..
      with False have "k = 0" by (cases k) auto
      with k m show "m = 0" by simp
    qed
    ultimately show ?thesis by simp
  qed
qed

lemma is_power_of_2_nat: "(is_power_of_2 v \<noteq> 0) = (\<exists>k. unat v = 2 ^ k)"
proof (cases "v = 0")
  case True
  then show ?thesis by (simp add: is_power_of_2_def)
next
  case False
  then have pos: "0 < unat v" by (simp add: unat_gt_0)
  have pred: "unat (v - 1) = unat v - 1" using False by (rule unat_minus_one)
  have "(v AND (v - 1) = 0) = (unat (v AND (v - 1)) = 0)" by (simp add: unat_eq_0)
  also have "\<dots> = (unat v AND (unat v - 1) = 0)" by (simp add: unsigned_and_eq pred)
  also have "\<dots> = (\<exists>k. unat v = 2 ^ k)" using pos by (rule and_pred_nat)
  finally show ?thesis using False by (simp add: is_power_of_2_def)
qed

lemma floor_lg2_loop_bounds:
  "1 \<le> v \<Longrightarrow>
   \<exists>k. floor_lg2_loop r v = r + of_nat k \<and> 2 ^ k \<le> unat v \<and> unat v < 2 ^ Suc k"
proof (induction r v rule: floor_lg2_loop.induct)
  case (1 r v)
  show ?case
  proof (cases "1 < v")
    case True
    then have two: "2 \<le> unat v" by (simp add: word_less_nat_alt)
    have half: "unat (drop_bit 1 v) = unat v div 2" by (simp add: drop_bit_eq_div unat_div)
    have "1 \<le> drop_bit 1 v" using two half by (simp add: word_le_nat_alt)
    from "1.IH" [OF True this] obtain k where
      k: "floor_lg2_loop (r + 1) (drop_bit 1 v) = r + 1 + of_nat k"
         "2 ^ k \<le> unat (drop_bit 1 v)" "unat (drop_bit 1 v) < 2 ^ Suc k" by blast
    have "floor_lg2_loop r v = r + of_nat (Suc k)"
      using True k(1) by (subst floor_lg2_loop.simps) simp
    moreover have "2 ^ Suc k \<le> unat v" using k(2) half by simp
    moreover have "unat v < 2 ^ Suc (Suc k)" using k(3) half by simp
    ultimately show ?thesis by blast
  next
    case False
    with "1.prems" have "v = 1" by (auto simp: le_less)
    then have "floor_lg2_loop r v = r + of_nat 0 \<and> 2 ^ 0 \<le> unat v \<and> unat v < 2 ^ Suc 0"
      by (subst floor_lg2_loop.simps) simp
    then show ?thesis by blast
  qed
qed

lemma floor_lg2_bounds:
  assumes "1 \<le> v"
  shows "2 ^ unat (floor_lg2 v) \<le> unat v \<and> unat v < 2 ^ Suc (unat (floor_lg2 v))"
proof -
  from floor_lg2_loop_bounds [OF assms, of 0] obtain k where
    k: "floor_lg2 v = of_nat k" "2 ^ k \<le> unat v" "unat v < 2 ^ Suc k"
    by (auto simp: floor_lg2_def)
  have "unat v < 2 ^ LENGTH(64)" by (rule unsigned_less)
  with k(2) have "(2::nat) ^ k < 2 ^ LENGTH(64)" by (rule le_less_trans)
  then have "k < LENGTH(64)" by (rule power_less_imp_less_exp [rotated]) simp
  then have "k < 64" by simp
  then have "unat (of_nat k :: uint8_t) = k" by (simp add: unat_of_nat)
  with k show ?thesis by simp
qed

text \<open>
  Claim C10. \<open>is_power_of_2\<close> returns true (the byte 1) exactly for the values
  \<open>2 ^ k\<close> and false (the byte 0) for all others, 0 among them. For every value of at least 1, \<open>floor_lg2\<close> returns the
  greatest \<open>k\<close> with \<open>2 ^ k \<le> value\<close>; for 0 it returns 0.
\<close>

theorem floor_lg2_is_power_of_2_correct:
  "is_power_of_2 v = (if \<exists>k. unat v = 2 ^ k then 1 else 0) \<and>
   is_power_of_2 0 = 0 \<and>
   (1 \<le> v \<longrightarrow>
      2 ^ unat (floor_lg2 v) \<le> unat v \<and>
      (\<forall>j. 2 ^ j \<le> unat v \<longrightarrow> j \<le> unat (floor_lg2 v))) \<and>
   floor_lg2 0 = 0"
proof -
  have "is_power_of_2 v = (if is_power_of_2 v \<noteq> 0 then 1 else 0)"
    by (simp add: is_power_of_2_def)
  then have a: "is_power_of_2 v = (if \<exists>k. unat v = 2 ^ k then 1 else 0)"
    by (simp only: is_power_of_2_nat)
  have b: "is_power_of_2 0 = 0" by (simp add: is_power_of_2_def)
  have c: "2 ^ unat (floor_lg2 v) \<le> unat v \<and>
           (\<forall>j. 2 ^ j \<le> unat v \<longrightarrow> j \<le> unat (floor_lg2 v))" if "1 \<le> v"
  proof -
    from floor_lg2_bounds [OF that] have lo: "2 ^ unat (floor_lg2 v) \<le> unat v"
      and hi: "unat v < 2 ^ Suc (unat (floor_lg2 v))" by simp_all
    have "j \<le> unat (floor_lg2 v)" if "2 ^ j \<le> unat v" for j
    proof -
      from that hi have "(2::nat) ^ j < 2 ^ Suc (unat (floor_lg2 v))" by (rule le_less_trans)
      then have "j < Suc (unat (floor_lg2 v))"
        by (rule power_less_imp_less_exp [rotated]) simp
      then show ?thesis by simp
    qed
    with lo show ?thesis by blast
  qed
  have d: "floor_lg2 0 = 0" by (simp add: floor_lg2_def floor_lg2_loop.simps [of 0 0])
  from a b c d show ?thesis by blast
qed

theorem floor_lg2_is_power_of_2_witness:
  "(1::size_t) \<le> 12 \<and> floor_lg2 12 = 3 \<and> is_power_of_2 12 = 0 \<and>
   (2::nat) ^ 3 \<le> unat (12::size_t) \<and> \<not> (2::nat) ^ 4 \<le> unat (12::size_t) \<and>
   \<not> (\<exists>k. unat (12::size_t) = 2 ^ k)"
proof -
  have h: "(1::size_t) \<le> 12" by simp
  have e: "floor_lg2 12 = 3" by code_simp
  have p: "is_power_of_2 12 = 0" by code_simp
  from floor_lg2_is_power_of_2_correct [of 12] h e p show ?thesis
    by (simp split: if_splits)
qed

subsection \<open>Blocks of a target list\<close>

lemma blocks_Nil [simp]: "blocks n [] = []"
  by (simp add: blocks.simps)

lemma blocks_exact: "0 < n \<Longrightarrow> length xs = n \<Longrightarrow> blocks n xs = [xs]"
  by (subst blocks.simps) auto

lemma concat_blocks: "0 < n \<Longrightarrow> concat (blocks n xs) = xs"
proof (induction n xs rule: blocks.induct)
  case (1 n xs)
  show ?case
  proof (cases "xs = []")
    case True
    then show ?thesis by simp
  next
    case False
    with "1.prems" have c: "\<not> (n = 0 \<or> xs = [])" by simp
    have "blocks n xs = take n xs # blocks n (drop n xs)"
      using c by (subst blocks.simps) simp
    with "1.IH" [OF c "1.prems"] show ?thesis by simp
  qed
qed

lemma blocks_append:
  "0 < n \<Longrightarrow> length xs = m * n \<Longrightarrow> blocks n (xs @ ys) = blocks n xs @ blocks n ys"
proof (induction m arbitrary: xs)
  case 0
  then show ?case by simp
next
  case (Suc m)
  from Suc.prems have len: "length xs = n + m * n" by simp
  with Suc.prems have ne: "xs \<noteq> []" by auto
  have d: "length (drop n xs) = m * n" using len by simp
  have "blocks n (xs @ ys) = take n xs # blocks n (drop n xs @ ys)"
    using Suc.prems(1) ne len by (subst blocks.simps) simp
  also have "\<dots> = take n xs # blocks n (drop n xs) @ blocks n ys"
    using Suc.IH [OF Suc.prems(1) d] by simp
  also have "\<dots> = blocks n xs @ blocks n ys"
    using Suc.prems(1) ne by (subst (2) blocks.simps) simp
  finally show ?case .
qed

lemma blocks_take_snoc:
  assumes "0 < n" "n dvd k" "0 < k" "k \<le> length ts"
  shows "blocks n (take k ts) = blocks n (take (k - n) ts) @ [take n (drop (k - n) ts)]"
proof -
  from assms obtain m where m: "k = n * m" by (auto simp: dvd_def)
  with assms have "0 < m" by (cases m) auto
  then have nk: "n \<le> k" using m by (cases m) auto
  have split: "take k ts = take (k - n) ts @ take n (drop (k - n) ts)"
    using nk by (metis le_add_diff_inverse2 take_add)
  have "length (take (k - n) ts) = k - n" using assms(4) by simp
  also have "\<dots> = (m - 1) * n" using m by (cases m) simp_all
  finally have l1: "length (take (k - n) ts) = (m - 1) * n" .
  have l2: "length (take n (drop (k - n) ts)) = n"
    using assms nk by simp
  show ?thesis
    unfolding split
    using blocks_append [OF assms(1) l1] blocks_exact [OF assms(1) l2] by simp
qed

subsection \<open>The inverter follows the specification's algorithm\<close>

lemma append_inverted_targets_blocks:
  "target_step tbl gd dvd k \<Longrightarrow> k \<le> length (targets op) \<Longrightarrow>
   append_inverted_targets tbl gd op k inverted =
     Inr (inverted @
          map (\<lambda>block. \<lparr>gate_type = gate_id (inverse_gate tbl gd),
                          args = args op, targets = block\<rparr>)
            (rev (blocks (target_step tbl gd) (take k (targets op)))))"
proof (induction tbl gd op k inverted rule: append_inverted_targets.induct)
  case (1 tbl gate_data op k inverted)
  let ?step = "target_step tbl gate_data"
  have pos: "0 < ?step" by (simp add: target_step_def)
  show ?case
  proof (cases "0 < k")
    case False
    then show ?thesis by (subst append_inverted_targets.simps) simp
  next
    case True
    from "1.prems"(1) True have le: "?step \<le> k" by (auto dest: dvd_imp_le)
    then have nlt: "\<not> k < ?step" by simp
    have dvd': "?step dvd k - ?step" using "1.prems"(1) by simp
    have le': "k - ?step \<le> length (targets op)" using "1.prems"(2) by simp
    note IH = "1.IH" [OF True refl nlt dvd' le']
    have snoc: "blocks ?step (take k (targets op)) =
        blocks ?step (take (k - ?step) (targets op)) @
        [take ?step (drop (k - ?step) (targets op))]"
      using pos "1.prems"(1) True "1.prems"(2) by (rule blocks_take_snoc)
    show ?thesis
      apply (subst append_inverted_targets.simps)
      using True nlt IH snoc by (simp add: Let_def safe_append_def)
  qed
qed

lemma invert_operation_unitary:
  assumes "is_unitary tbl op" "targets_well_formed tbl op"
  shows "invert_operation tbl op inverted = Inr (inverted @ spec_inverse_operation tbl op)"
  using assms append_inverted_targets_blocks
    [of tbl "GATE_DATA tbl (gate_type op)" "length (targets op)" op inverted]
  by (simp add: invert_operation_def is_unitary_def targets_well_formed_def
      spec_inverse_operation_def Let_def)

lemma invert_operation_not_unitary:
  "\<not> is_unitary tbl op \<Longrightarrow> invert_operation tbl op inverted = Inl (NotUnitary op)"
  by (simp add: invert_operation_def is_unitary_def Let_def)

lemma for_each_operation_unitary:
  "\<forall>op \<in> set ops. is_unitary tbl op \<and> targets_well_formed tbl op \<Longrightarrow>
   for_each_operation ops (invert_operation tbl) inverted =
     Inr (inverted @ concat (map (spec_inverse_operation tbl) ops))"
proof (induction ops arbitrary: inverted)
  case Nil
  then show ?case by simp
next
  case (Cons op ops)
  then show ?case by (simp add: invert_operation_unitary)
qed

lemma unitary_circuit_inverse_eq_spec:
  "\<forall>op \<in> set circuit. is_unitary tbl op \<and> targets_well_formed tbl op \<Longrightarrow>
   unitary_circuit_inverse tbl circuit = Inr (spec_unitary_circuit_inverse tbl circuit)"
  using for_each_operation_unitary [of "rev circuit" tbl "[]"]
  by (simp add: unitary_circuit_inverse_def for_each_operation_reverse_def
      spec_unitary_circuit_inverse_def)

lemma for_each_operation_not_unitary:
  "\<not> is_unitary tbl op \<Longrightarrow>
   \<forall>x \<in> set visited. is_unitary tbl x \<and> targets_well_formed tbl x \<Longrightarrow>
   for_each_operation (visited @ op # rest) (invert_operation tbl) inverted =
     Inl (NotUnitary op)"
proof (induction visited arbitrary: inverted)
  case Nil
  then show ?case by (simp add: invert_operation_not_unitary)
next
  case (Cons x xs)
  then show ?case by (simp add: invert_operation_unitary)
qed

lemma last_violation:
  "\<exists>op \<in> set circuit. \<not> P op \<Longrightarrow>
   \<exists>pre op post. circuit = pre @ op # post \<and> \<not> P op \<and> (\<forall>x \<in> set post. P x)"
proof (induction circuit rule: rev_induct)
  case Nil
  then show ?case by simp
next
  case (snoc x xs)
  show ?case
  proof (cases "P x")
    case False
    then have "xs @ [x] = xs @ x # [] \<and> \<not> P x \<and> (\<forall>y \<in> set []. P y)" by simp
    then show ?thesis by blast
  next
    case True
    with snoc.prems have "\<exists>op \<in> set xs. \<not> P op" by auto
    from snoc.IH [OF this] obtain pre op post where
      d: "xs = pre @ op # post" "\<not> P op" "\<forall>y \<in> set post. P y" by blast
    then have "xs @ [x] = pre @ op # (post @ [x]) \<and> \<not> P op \<and>
        (\<forall>y \<in> set (post @ [x]). P y)"
      using True by simp
    then show ?thesis by blast
  qed
qed

lemma sample_table_simps:
  "is_unitary sample_table (instruction g ts) = (g \<le> 3)"
  "targets_well_formed sample_table (instruction g ts) = (g = 3 \<longrightarrow> even (length ts))"
  by (auto simp: is_unitary_def targets_well_formed_def target_step_def sample_table_def
      sample_gate_def instruction_def)

text \<open>
  Claim C3. On a circuit of unitary gates (pair gates with an even number of targets),
  \<open>unitary_circuit_inverse\<close> returns what the specification's algorithm gives: the
  instructions taken in reverse order, each gate replaced by the inverse gate of the
  table, and the target blocks of each instruction (the qubit pairs of a pair gate)
  emitted in reverse order, each block with its internal order kept.
\<close>

theorem unitary_circuit_inverse_reverses_blocks:
  assumes "\<forall>op \<in> set circuit. is_unitary tbl op \<and> targets_well_formed tbl op"
  shows "unitary_circuit_inverse tbl circuit = Inr (spec_unitary_circuit_inverse tbl circuit)"
  using assms by (rule unitary_circuit_inverse_eq_spec)

theorem unitary_circuit_inverse_reverses_blocks_witness:
  "unitary_circuit_inverse sample_table
     [instruction 1 [0, 1], instruction 3 [0, 1, 2, 3]] =
   Inr [instruction 3 [2, 3], instruction 3 [0, 1], instruction 2 [1], instruction 2 [0]]"
proof -
  have "\<forall>op \<in> set [instruction 1 [0, 1], instruction 3 [0, 1, 2, 3]].
          is_unitary sample_table op \<and> targets_well_formed sample_table op"
    by (simp add: sample_table_simps)
  from unitary_circuit_inverse_reverses_blocks [OF this] show ?thesis
    by (simp add: spec_unitary_circuit_inverse_def spec_inverse_operation_def
        target_step_def sample_table_def sample_gate_def instruction_def blocks.simps)
qed

text \<open>
  Claim C4. On a circuit that contains a non-unitary instruction (and whose unitary pair
  gates have an even number of targets), \<open>unitary_circuit_inverse\<close> fails with the
  not-unitary error for the first such instruction met in the reverse traversal, that is
  the last one of the circuit, and returns no circuit.
\<close>

theorem unitary_circuit_inverse_not_unitary_fails:
  assumes "\<exists>op \<in> set circuit. \<not> is_unitary tbl op"
    and "\<forall>op \<in> set circuit. is_unitary tbl op \<longrightarrow> targets_well_formed tbl op"
  shows "\<exists>pre op post. circuit = pre @ op # post \<and> \<not> is_unitary tbl op \<and>
           (\<forall>x \<in> set post. is_unitary tbl x) \<and>
           unitary_circuit_inverse tbl circuit = Inl (NotUnitary op) \<and>
           (\<forall>inverted. unitary_circuit_inverse tbl circuit \<noteq> Inr inverted)"
proof -
  from last_violation [of circuit "is_unitary tbl", OF assms(1)] obtain pre op post where
    d: "circuit = pre @ op # post" "\<not> is_unitary tbl op" "\<forall>x \<in> set post. is_unitary tbl x"
    by blast
  have wf: "\<forall>x \<in> set (rev post). is_unitary tbl x \<and> targets_well_formed tbl x"
    using d(1,3) assms(2) by auto
  have "unitary_circuit_inverse tbl circuit = Inl (NotUnitary op)"
    using for_each_operation_not_unitary [OF d(2) wf, of "rev pre" "[]"]
    by (simp add: unitary_circuit_inverse_def for_each_operation_reverse_def d(1))
  with d show ?thesis by auto
qed

theorem unitary_circuit_inverse_not_unitary_fails_witness:
  "unitary_circuit_inverse sample_table
     [instruction 0 [0], instruction 4 [0], instruction 3 [0, 1]] =
   Inl (NotUnitary (instruction 4 [0]))"
proof -
  let ?c = "[instruction 0 [0], instruction 4 [0], instruction 3 [0, 1]]"
  have h1: "\<exists>op \<in> set ?c. \<not> is_unitary sample_table op"
    by (simp add: sample_table_simps)
  have h2: "\<forall>op \<in> set ?c. is_unitary sample_table op \<longrightarrow> targets_well_formed sample_table op"
    by (simp add: sample_table_simps)
  from unitary_circuit_inverse_not_unitary_fails [OF h1 h2] obtain pre op post where
    d: "?c = pre @ op # post" "\<not> is_unitary sample_table op"
       "unitary_circuit_inverse sample_table ?c = Inl (NotUnitary op)" by blast
  from d(1) have "op \<in> set ?c" by (metis in_set_conv_decomp)
  with d(2) have "op = instruction 4 [0]" by (auto simp: sample_table_simps)
  with d(3) show ?thesis by simp
qed

subsection \<open>Inverting twice\<close>

lemma target_step_pos: "0 < target_step tbl gd"
  by (simp add: target_step_def)

lemma blocks_length:
  "0 < n \<Longrightarrow> n dvd length xs \<Longrightarrow> \<forall>b \<in> set (blocks n xs). length b = n"
proof (induction n xs rule: blocks.induct)
  case (1 n xs)
  show ?case
  proof (cases "xs = []")
    case True
    then show ?thesis by simp
  next
    case False
    with "1.prems" have le: "n \<le> length xs" by (auto dest: dvd_imp_le)
    have c: "\<not> (n = 0 \<or> xs = [])" using "1.prems"(1) False by simp
    have "n dvd length xs - n" using "1.prems"(2) by (rule dvd_diff_nat) simp
    then have d: "n dvd length (drop n xs)" by simp
    note IH = "1.IH" [OF c "1.prems"(1) d]
    have e: "blocks n xs = take n xs # blocks n (drop n xs)"
      using c by (subst blocks.simps) simp
    have "length (take n xs) = n" using le by simp
    with IH show ?thesis unfolding e by simp
  qed
qed

lemma spec_inverse_operation_single:
  assumes "length b = target_step tbl (GATE_DATA tbl g)"
  shows "spec_inverse_operation tbl \<lparr>gate_type = g, args = as, targets = b\<rparr> =
         [\<lparr>gate_type = inverse_id tbl g, args = as, targets = b\<rparr>]"
  using blocks_exact [OF target_step_pos assms]
  by (simp add: spec_inverse_operation_def inverse_id_def Let_def)

lemma spec_inverse_twice_operation:
  assumes wf: "targets_well_formed tbl op"
    and st: "target_step tbl (GATE_DATA tbl (inverse_id tbl (gate_type op))) =
             target_step tbl (GATE_DATA tbl (gate_type op))"
  shows "concat (map (spec_inverse_operation tbl) (rev (spec_inverse_operation tbl op))) =
         split_operation tbl op"
proof -
  let ?n = "target_step tbl (GATE_DATA tbl (gate_type op))"
  have len: "\<forall>b \<in> set (blocks ?n (targets op)). length b = ?n"
    using wf by (intro blocks_length target_step_pos) (simp add: targets_well_formed_def)
  have "rev (spec_inverse_operation tbl op) =
        map (\<lambda>block. \<lparr>gate_type = inverse_id tbl (gate_type op), args = args op, targets = block\<rparr>)
          (blocks ?n (targets op))"
    by (simp add: spec_inverse_operation_def Let_def rev_map inverse_id_def)
  moreover have "concat (map (spec_inverse_operation tbl)
        (map (\<lambda>block. \<lparr>gate_type = inverse_id tbl (gate_type op), args = args op, targets = block\<rparr>) bs)) =
      map (\<lambda>block. \<lparr>gate_type = inverse_id tbl (inverse_id tbl (gate_type op)),
                     args = args op, targets = block\<rparr>) bs"
    if "\<forall>b \<in> set bs. length b = ?n" for bs
    using that by (induction bs) (simp_all add: spec_inverse_operation_single st)
  ultimately show ?thesis using len by (simp add: split_operation_def)
qed

lemma spec_inverse_twice:
  assumes "\<forall>op \<in> set circuit. targets_well_formed tbl op \<and>
             target_step tbl (GATE_DATA tbl (inverse_id tbl (gate_type op))) =
             target_step tbl (GATE_DATA tbl (gate_type op))"
  shows "spec_unitary_circuit_inverse tbl (spec_unitary_circuit_inverse tbl circuit) =
         concat (map (split_operation tbl) circuit)"
  using assms
proof (induction circuit rule: rev_induct)
  case Nil
  then show ?case by (simp add: spec_unitary_circuit_inverse_def)
next
  case (snoc op ops)
  have "spec_unitary_circuit_inverse tbl (spec_unitary_circuit_inverse tbl (ops @ [op])) =
        spec_unitary_circuit_inverse tbl (spec_unitary_circuit_inverse tbl ops) @
        concat (map (spec_inverse_operation tbl) (rev (spec_inverse_operation tbl op)))"
    by (simp add: spec_unitary_circuit_inverse_def)
  with snoc show ?case by (simp add: spec_inverse_twice_operation)
qed


lemma spec_inverse_wf:
  assumes "\<forall>op \<in> set circuit. is_unitary tbl op \<and> targets_well_formed tbl op \<and>
             inverse_table_coherent tbl act (gate_type op)"
  shows "\<forall>op \<in> set (spec_unitary_circuit_inverse tbl circuit).
           is_unitary tbl op \<and> targets_well_formed tbl op"
proof
  fix op'
  assume "op' \<in> set (spec_unitary_circuit_inverse tbl circuit)"
  then obtain op where op: "op \<in> set circuit" and in': "op' \<in> set (spec_inverse_operation tbl op)"
    by (auto simp: spec_unitary_circuit_inverse_def)
  let ?n = "target_step tbl (GATE_DATA tbl (gate_type op))"
  from in' obtain b where b: "b \<in> set (blocks ?n (targets op))"
    and op': "op' = \<lparr>gate_type = inverse_id tbl (gate_type op), args = args op, targets = b\<rparr>"
    by (auto simp: spec_inverse_operation_def Let_def inverse_id_def)
  from assms op have wf: "targets_well_formed tbl op"
    and co: "inverse_table_coherent tbl act (gate_type op)" by auto
  have "\<forall>b \<in> set (blocks ?n (targets op)). length b = ?n"
    using wf by (intro blocks_length target_step_pos) (simp add: targets_well_formed_def)
  with b have len: "length b = ?n" by blast
  from co have u: "flags (GATE_DATA tbl (inverse_id tbl (gate_type op))) AND GATE_IS_UNITARY tbl \<noteq> 0"
    and st: "target_step tbl (GATE_DATA tbl (inverse_id tbl (gate_type op))) = ?n"
    by (simp_all add: inverse_table_coherent_def)
  show "is_unitary tbl op' \<and> targets_well_formed tbl op'"
    using u st len by (simp add: op' is_unitary_def targets_well_formed_def)
qed

lemma apply_split_operation:
  assumes wf: "targets_well_formed tbl op"
    and co: "inverse_table_coherent tbl act (gate_type op)"
  shows "fold (apply_operation tbl act) (split_operation tbl op) q = apply_operation tbl act op q"
proof -
  let ?n = "target_step tbl (GATE_DATA tbl (gate_type op))"
  let ?g2 = "inverse_id tbl (inverse_id tbl (gate_type op))"
  from co have st: "target_step tbl (GATE_DATA tbl ?g2) = ?n" and a: "act ?g2 = act (gate_type op)"
    by (simp_all add: inverse_table_coherent_def)
  have len: "\<forall>b \<in> set (blocks ?n (targets op)). length b = ?n"
    using wf by (intro blocks_length target_step_pos) (simp add: targets_well_formed_def)
  have one: "apply_operation tbl act \<lparr>gate_type = ?g2, args = args op, targets = b\<rparr> =
             act (gate_type op) b (args op)" if "length b = ?n" for b
  proof -
    from that st have "length b = target_step tbl (GATE_DATA tbl ?g2)" by simp
    from blocks_exact [OF target_step_pos this] show ?thesis
      by (simp add: apply_operation_def a fun_eq_iff)
  qed
  have "fold (apply_operation tbl act)
          (map (\<lambda>block. \<lparr>gate_type = ?g2, args = args op, targets = block\<rparr>) bs) q =
        fold (\<lambda>block. act (gate_type op) block (args op)) bs q"
    if "\<forall>b \<in> set bs. length b = ?n" for bs
    using that by (induction bs arbitrary: q) (simp_all add: one)
  from this [OF len] show ?thesis by (simp add: split_operation_def apply_operation_def)
qed

lemma apply_split_circuit:
  "\<forall>op \<in> set circuit. targets_well_formed tbl op \<and> inverse_table_coherent tbl act (gate_type op) \<Longrightarrow>
   apply_circuit tbl act (concat (map (split_operation tbl) circuit)) q = apply_circuit tbl act circuit q"
proof (induction circuit arbitrary: q)
  case Nil
  then show ?case by (simp add: apply_circuit_def)
next
  case (Cons op ops)
  then have IH: "\<And>q. apply_circuit tbl act (concat (map (split_operation tbl) ops)) q =
      apply_circuit tbl act ops q" by simp
  from Cons.prems have "fold (apply_operation tbl act) (split_operation tbl op) q =
      apply_operation tbl act op q" by (simp add: apply_split_operation)
  with IH show ?case by (simp add: apply_circuit_def)
qed

lemma unitary_circuit_inverse_twice:
  assumes "\<forall>op \<in> set circuit. is_unitary tbl op \<and> targets_well_formed tbl op \<and>
             inverse_table_coherent tbl act (gate_type op)"
  shows "unitary_circuit_inverse tbl circuit = Inr (spec_unitary_circuit_inverse tbl circuit) \<and>
         unitary_circuit_inverse tbl (spec_unitary_circuit_inverse tbl circuit) =
           Inr (concat (map (split_operation tbl) circuit))"
proof -
  from assms have a: "\<forall>op \<in> set circuit. is_unitary tbl op \<and> targets_well_formed tbl op" by simp
  from assms have b: "\<forall>op \<in> set circuit. targets_well_formed tbl op \<and>
             target_step tbl (GATE_DATA tbl (inverse_id tbl (gate_type op))) =
             target_step tbl (GATE_DATA tbl (gate_type op))"
    by (simp add: inverse_table_coherent_def)
  show ?thesis
    using unitary_circuit_inverse_eq_spec [OF a]
      unitary_circuit_inverse_eq_spec [OF spec_inverse_wf [OF assms]]
      spec_inverse_twice [OF b] by simp
qed

text \<open>
  Claim C9. On a circuit of unitary gates, inverting twice succeeds both times, and the
  circuit obtained acts as the original circuit on every state, for every gate action
  under which the table's inverse lookup is coherent. The instruction list is in general
  not the original one: each instruction comes back cut into one instruction for each
  block of targets.
\<close>

theorem unitary_circuit_inverse_twice_equivalent:
  assumes "\<forall>op \<in> set circuit. is_unitary tbl op \<and> targets_well_formed tbl op \<and>
             inverse_table_coherent tbl act (gate_type op)"
  shows "\<exists>inverted twice.
           unitary_circuit_inverse tbl circuit = Inr inverted \<and>
           unitary_circuit_inverse tbl inverted = Inr twice \<and>
           (\<forall>q. apply_circuit tbl act twice q = apply_circuit tbl act circuit q)"
proof -
  from assms have "\<forall>op \<in> set circuit. targets_well_formed tbl op \<and>
      inverse_table_coherent tbl act (gate_type op)" by simp
  then have "\<forall>q. apply_circuit tbl act (concat (map (split_operation tbl) circuit)) q =
      apply_circuit tbl act circuit q" by (simp add: apply_split_circuit)
  with unitary_circuit_inverse_twice [OF assms] show ?thesis by blast
qed

lemma sample_table_coherent:
  "g \<le> 3 \<Longrightarrow> inverse_table_coherent sample_table sample_act g"
  by (auto simp: inverse_table_coherent_def inverse_id_def target_step_def sample_table_def
      sample_gate_def)

theorem unitary_circuit_inverse_twice_equivalent_witness:
  "unitary_circuit_inverse sample_table [instruction 1 [0, 1], instruction 3 [0, 1, 2, 3]] =
     Inr [instruction 3 [2, 3], instruction 3 [0, 1], instruction 2 [1], instruction 2 [0]] \<and>
   unitary_circuit_inverse sample_table
     [instruction 3 [2, 3], instruction 3 [0, 1], instruction 2 [1], instruction 2 [0]] =
     Inr [instruction 1 [0], instruction 1 [1], instruction 3 [0, 1], instruction 3 [2, 3]] \<and>
   apply_circuit sample_table sample_act
     [instruction 1 [0], instruction 1 [1], instruction 3 [0, 1], instruction 3 [2, 3]] [] =
   apply_circuit sample_table sample_act
     [instruction 1 [0, 1], instruction 3 [0, 1, 2, 3]] []"
proof -
  let ?c = "[instruction 1 [0, 1], instruction 3 [0, 1, 2, 3]]"
  have h: "\<forall>op \<in> set ?c. is_unitary sample_table op \<and> targets_well_formed sample_table op \<and>
             inverse_table_coherent sample_table sample_act (gate_type op)"
    by (simp add: sample_table_simps) (simp add: instruction_def sample_table_coherent)
  from unitary_circuit_inverse_twice_equivalent [OF h] obtain inverted twice where
    r: "unitary_circuit_inverse sample_table ?c = Inr inverted"
       "unitary_circuit_inverse sample_table inverted = Inr twice"
       "\<forall>q. apply_circuit sample_table sample_act twice q =
            apply_circuit sample_table sample_act ?c q" by blast
  have e1: "unitary_circuit_inverse sample_table ?c =
      Inr [instruction 3 [2, 3], instruction 3 [0, 1], instruction 2 [1], instruction 2 [0]]"
    by (simp add: unitary_circuit_inverse_def for_each_operation_reverse_def invert_operation_def
        append_inverted_targets.simps safe_append_def
        target_step_def sample_table_def sample_gate_def instruction_def)
  have e2: "unitary_circuit_inverse sample_table
      [instruction 3 [2, 3], instruction 3 [0, 1], instruction 2 [1], instruction 2 [0]] =
      Inr [instruction 1 [0], instruction 1 [1], instruction 3 [0, 1], instruction 3 [2, 3]]"
    by (simp add: unitary_circuit_inverse_def for_each_operation_reverse_def invert_operation_def
        append_inverted_targets.simps safe_append_def
        target_step_def sample_table_def sample_gate_def instruction_def)
  from r e1 e2 show ?thesis by simp
qed

subsection \<open>The circuit-to-tableau compiler\<close>

lemma step_unsupported:
  "unsupported kind n m r op \<Longrightarrow>
   circuit_to_tableau_step kind compose n m r op t = Inl UnsupportedInstruction"
  by (auto simp: unsupported_def circuit_to_tableau_step_def)

lemma step_ignored:
  "ignored kind n m r op \<Longrightarrow> circuit_to_tableau_step kind compose n m r op t = Inr t"
  by (auto simp: ignored_def circuit_to_tableau_step_def)

lemma for_each_operation_unsupported:
  "\<exists>op \<in> set circuit. unsupported kind n m r op \<Longrightarrow>
   for_each_operation circuit (circuit_to_tableau_step kind compose n m r) t =
     Inl UnsupportedInstruction"
proof (induction circuit arbitrary: t)
  case Nil
  then show ?case by simp
next
  case (Cons op ops)
  show ?case
  proof (cases "circuit_to_tableau_step kind compose n m r op t")
    case (Inl e)
    then show ?thesis by (cases e) simp
  next
    case (Inr t')
    then have "\<not> unsupported kind n m r op" by (auto simp: step_unsupported)
    with Cons.prems have "\<exists>op \<in> set ops. unsupported kind n m r op" by simp
    from Cons.IH [OF this] Inr show ?thesis by simp
  qed
qed

lemma for_each_operation_append:
  "for_each_operation (xs @ ys) f s =
     (case for_each_operation xs f s of
        Inl e \<Rightarrow> Inl e | Inr s' \<Rightarrow> for_each_operation ys f s')"
  by (induction xs arbitrary: s) (auto split: sum.splits)

lemma for_each_operation_skip:
  "ignored kind n m r op \<Longrightarrow>
   for_each_operation (pre @ op # post) (circuit_to_tableau_step kind compose n m r) t =
   for_each_operation (pre @ post) (circuit_to_tableau_step kind compose n m r) t"
  by (simp add: for_each_operation_append step_ignored split: sum.splits)

text \<open>
  Claim C5. For every circuit and every flag assignment, \<open>circuit_to_tableau\<close> fails with
  the unsupported-instruction error when the circuit holds a noise, measurement or reset
  instruction whose ignore-flag is false. An instruction of these kinds whose flag is
  true leaves the accumulated tableau unchanged, and the result is the one of the circuit
  without that instruction.
\<close>

theorem circuit_to_tableau_unsupported_or_skipped:
  "((\<exists>op \<in> set circuit.
       unsupported kind ignore_noise ignore_measurement ignore_reset op) \<longrightarrow>
     circuit_to_tableau kind compose identity_tableau circuit
       ignore_noise ignore_measurement ignore_reset = Inl UnsupportedInstruction) \<and>
   (ignored kind ignore_noise ignore_measurement ignore_reset op \<longrightarrow>
     circuit_to_tableau_step kind compose ignore_noise ignore_measurement ignore_reset
       op tableau = Inr tableau \<and>
     circuit_to_tableau kind compose identity_tableau (pre @ op # post)
       ignore_noise ignore_measurement ignore_reset =
     circuit_to_tableau kind compose identity_tableau (pre @ post)
       ignore_noise ignore_measurement ignore_reset)"
  by (auto simp: circuit_to_tableau_def for_each_operation_unsupported step_ignored
      for_each_operation_skip)

theorem circuit_to_tableau_unsupported_or_skipped_witness:
  "circuit_to_tableau sample_kind sample_compose []
     [instruction 0 [0], instruction 4 [0], instruction 1 [0]] True False True =
     Inl UnsupportedInstruction \<and>
   circuit_to_tableau sample_kind sample_compose []
     ([instruction 0 [0]] @ instruction 4 [0] # [instruction 1 [0]]) True True True =
     Inr [0, 1]"
proof -
  let ?c = "[instruction 0 [0], instruction 4 [0], instruction 1 [0]]"
  have u: "\<exists>op \<in> set ?c. unsupported sample_kind True False True op"
    by (simp add: unsupported_def sample_kind_def instruction_def)
  have i: "ignored sample_kind True True True (instruction 4 [0])"
    by (simp add: ignored_def sample_kind_def instruction_def)
  have e: "circuit_to_tableau sample_kind sample_compose []
      ([instruction 0 [0]] @ [instruction 1 [0]]) True True True = Inr [0, 1]"
    by (simp add: circuit_to_tableau_def circuit_to_tableau_step_def sample_kind_def
        sample_compose_def instruction_def)
  from circuit_to_tableau_unsupported_or_skipped
    [of ?c sample_kind True False True sample_compose "[]"] u
  have a: "circuit_to_tableau sample_kind sample_compose [] ?c True False True =
      Inl UnsupportedInstruction" by blast
  from circuit_to_tableau_unsupported_or_skipped
    [of "[]" sample_kind True True True sample_compose "[]" "instruction 4 [0]" "[]"
      "[instruction 0 [0]]" "[instruction 1 [0]]"] i
  have b: "circuit_to_tableau sample_kind sample_compose []
      ([instruction 0 [0]] @ instruction 4 [0] # [instruction 1 [0]]) True True True =
    circuit_to_tableau sample_kind sample_compose []
      ([instruction 0 [0]] @ [instruction 1 [0]]) True True True" by blast
  from a b e show ?thesis by simp
qed

subsection \<open>The stabilizer completion solver\<close>




lemma commuting_rows_snoc:
  "commuting_rows (rows @ [row]) = (commuting_rows rows \<and> (\<forall>a \<in> set rows. commutes a row))"
  by (induction rows) auto

lemma accept_rows_commuting:
  "accept_rows n ar accepted rows = Inr accepted' \<Longrightarrow> commuting_rows accepted \<Longrightarrow>
   commuting_rows accepted'"
proof (induction rows arbitrary: accepted)
  case Nil
  then show ?case by simp
next
  case (Cons row rows)
  show ?case
  proof (cases "dependence n accepted row")
    case None
    with Cons.prems(1) have ok: "\<forall>a \<in> set accepted. commutes a row"
      and rest: "accept_rows n ar (accepted @ [row]) rows = Inr accepted'"
      by (auto split: if_splits)
    from ok Cons.prems(2) have "commuting_rows (accepted @ [row])"
      by (simp add: commuting_rows_snoc)
    with Cons.IH [OF rest] show ?thesis .
  next
    case (Some product)
    with Cons.prems(1) have "accept_rows n ar accepted rows = Inr accepted'"
      by (simp split: if_splits)
    from Cons.IH [OF this Cons.prems(2)] show ?thesis .
  qed
qed

lemma stabilizers_to_tableau_Inr:
  assumes "stabilizers_to_tableau fill destabilizers inverse_tableau stabilizers
             allow_redundant False False = Inr tableau"
  shows "accept_rows (qubit_count stabilizers) allow_redundant [] stabilizers =
           Inr (zs_output tableau)"
  using assms
  by (auto simp: stabilizers_to_tableau_def Let_def split: if_splits sum.splits)

lemma stabilizers_to_tableau_commuting:
  assumes "stabilizers_to_tableau fill destabilizers inverse_tableau stabilizers
             allow_redundant False False = Inr tableau"
  shows "commuting_rows (zs_output tableau)"
  using accept_rows_commuting [OF stabilizers_to_tableau_Inr [OF assms]] by simp






lemma linearly_dependent_iff:
  "linearly_dependent n accepted row =
     (\<exists>chosen. subseq chosen accepted \<and>
        snd (foldr (\<lambda>p acc. phased_mul (phased p) acc) chosen (identity_pauli n)) =
          (x_part row, z_part row))"
  by (auto simp: linearly_dependent_def dependence_def subset_products_def find_None_iff
      case_prod_beta prod_eq_iff)

lemma contradicting_row_refused:
  "stabilizers_to_tableau fill destabilizers inverse_tableau
     [pauli_XX, pauli True ''XX''] True allow_underconstrained invert = Inl InvalidStabilizers"
  "stabilizers_to_tableau fill destabilizers inverse_tableau
     [pauli False ''X'', pauli False ''Z''] allow_redundant allow_underconstrained invert =
   Inl InvalidStabilizers"
proof -
  have "qubit_count [pauli_XX, pauli True ''XX''] = 2"
    "well_sized 2 [pauli_XX, pauli True ''XX'']"
    "accept_rows 2 True [] [pauli_XX, pauli True ''XX''] = Inl InvalidStabilizers"
    by code_simp+
  then show "stabilizers_to_tableau fill destabilizers inverse_tableau
     [pauli_XX, pauli True ''XX''] True allow_underconstrained invert = Inl InvalidStabilizers"
    by (simp add: stabilizers_to_tableau_def Let_def del: accept_rows.simps)
  have "qubit_count [pauli False ''X'', pauli False ''Z''] = 1"
    "well_sized 1 [pauli False ''X'', pauli False ''Z'']"
    "accept_rows 1 True [] [pauli False ''X'', pauli False ''Z''] = Inl InvalidStabilizers"
    "accept_rows 1 False [] [pauli False ''X'', pauli False ''Z''] = Inl InvalidStabilizers"
    by code_simp+
  then show "stabilizers_to_tableau fill destabilizers inverse_tableau
     [pauli False ''X'', pauli False ''Z''] allow_redundant allow_underconstrained invert =
   Inl InvalidStabilizers"
    by (cases allow_redundant)
      (simp_all add: stabilizers_to_tableau_def Let_def del: accept_rows.simps)
qed





end
